theory Spec2Isabelle
  imports Main "HOL-Library.Char_ord" "HOL-Library.List_Lexorder"
begin

section \<open>ListMan: a shallow embedding of \<^verbatim>\<open>src/listman.py\<close>\<close>

text \<open>
  Python strings are modelled as \<^typ>\<open>string\<close>: lists of characters with code points
  below 256, ordered by code point (\<^verbatim>\<open>Char_ord\<close>) and compared lexicographically
  (\<^verbatim>\<open>List_Lexorder\<close>), a proper prefix being smaller, as Python compares \<^verbatim>\<open>str\<close>.
  A Python \<^verbatim>\<open>set\<close> of strings is a \<^typ>\<open>string set\<close>; it is always finite in the
  program, and theorems that sort a set assume so.

  Modelled: the ledger, the checkpoint, the worker, the coordinator, the master store and the
  two commands, each under the name it has in the source. Not modelled: \<^verbatim>\<open>main\<close> and the
  argument parser, the banner, the progress bars and informational prints, and the encoding
  of text as bytes (a file holds the characters that reading it in text mode yields before
  newline translation). The list arguments \<^verbatim>\<open>files\<close> and \<^verbatim>\<open>folders\<close> may be
  \<^verbatim>\<open>None\<close> in the source, which behaves as the empty list.
\<close>

subsection \<open>Text primitives of the Python runtime\<close>

type_synonym path = string

definition LF :: char where
  "LF = CHR 0x0A"

definition CR :: char where
  "CR = CHR 0x0D"

text \<open>\<^verbatim>\<open>str.isspace\<close> on the code points below 256.\<close>

definition isspace :: "char \<Rightarrow> bool" where
  "isspace c = (c \<in> set [CHR 0x09, CHR 0x0A, CHR 0x0B, CHR 0x0C, CHR 0x0D, CHR 0x1C,
                          CHR 0x1D, CHR 0x1E, CHR 0x1F, CHR 0x20, CHR 0x85, CHR 0xA0])"

text \<open>\<^verbatim>\<open>str.strip()\<close>: drop the whitespace at both ends.\<close>

definition strip :: "string \<Rightarrow> string" where
  "strip s = rev (dropWhile isspace (rev (dropWhile isspace s)))"

text \<open>
  A file opened in text mode with the default \<^verbatim>\<open>newline=None\<close> translates
  \<^verbatim>\<open>\r\n\<close> and a lone \<^verbatim>\<open>\r\<close> to \<^verbatim>\<open>\n\<close> while reading.
\<close>

fun universal_newlines :: "string \<Rightarrow> string" where
  "universal_newlines [] = []"
| "universal_newlines [c] = [if c = CR then LF else c]"
| "universal_newlines (c # d # cs) =
     (if c = CR \<and> d = LF then LF # universal_newlines cs
      else if c = CR then LF # universal_newlines (d # cs)
      else c # universal_newlines (d # cs))"

text \<open>
  Iterating over a text file yields its lines, each with its terminating \<^verbatim>\<open>\n\<close>; only
  the last line may lack one.
\<close>

fun split_lines :: "string \<Rightarrow> string list" where
  "split_lines [] = []"
| "split_lines (c # cs) =
     (if c = LF then [LF] # split_lines cs
      else (case split_lines cs of [] \<Rightarrow> [[c]] | l # ls \<Rightarrow> (c # l) # ls))"

definition py_lines :: "string \<Rightarrow> string list" where
  "py_lines t = split_lines (universal_newlines t)"

text \<open>\<^verbatim>\<open>s.split(d)\<close> for a one-character separator: never the empty list.\<close>

fun split_on :: "char \<Rightarrow> string \<Rightarrow> string list" where
  "split_on d [] = [[]]"
| "split_on d (c # cs) =
     (if c = d then [] # split_on d cs
      else (case split_on d cs of [] \<Rightarrow> [[c]] | l # ls \<Rightarrow> (c # l) # ls))"

text \<open>The format specification \<^verbatim>\<open>:<6\<close>: pad on the right to width 6, never truncate.\<close>

definition ljust :: "nat \<Rightarrow> string \<Rightarrow> string" where
  "ljust n s = s @ replicate (n - length s) (CHR '' '')"

text \<open>The decimal rendering of a non-negative \<^verbatim>\<open>int\<close> in an f-string.\<close>

fun str_nat :: "nat \<Rightarrow> string" where
  "str_nat n =
     (if n < 10 then [''0123456789'' ! n]
      else str_nat (n div 10) @ [''0123456789'' ! (n mod 10)])"

declare str_nat.simps [simp del]

subsection \<open>The files the program touches\<close>

text \<open>
  The state is what the program reads and writes, kept apart by role:
  \<^item> \<open>nodes\<close>: the input tree: a regular text file with its content, or a directory with
    the names of its entries in listing order;
  \<^item> \<open>logs\<close>: the log stores by path, each a text file (absent until first appended to);
  \<^item> \<open>master_txt\<close>, \<open>master_gz\<close>, \<open>master_bz2\<close>: the three representations
    \<^verbatim>\<open>MASTER_FILE\<close>, \<^verbatim>\<open>MASTER_FILE + ".gz"\<close> and \<^verbatim>\<open>MASTER_FILE + ".bz2"\<close>, each
    \<open>None\<close> when the file does not exist and otherwise the text that opening it in text mode
    (through \<^verbatim>\<open>gzip.open\<close> or \<^verbatim>\<open>bz2.open\<close> for the last two) reads back;
  \<^item> \<open>resume_file\<close>: \<^verbatim>\<open>RESUME_FILE\<close>, \<open>None\<close> when absent and otherwise the list of
    strings that \<^verbatim>\<open>json.load\<close> returns for what \<^verbatim>\<open>json.dump\<close> wrote;
  \<^item> \<open>console\<close>: the error reports printed so far (the informational prints and progress
    bars are left out).

  The stores are reliable: a log store, the checkpoint and the master files can always be
  written and read back, and they do not alias the input tree. Failures of reading an input
  are modelled, see \<open>read_fault\<close> below.
\<close>

datatype node = File string | Dir "string list"

datatype message =
    FileNotFound path
  | FolderNotFound path
  | ErrorReading path
  | NoMasterFound

record store =
  nodes :: "path \<rightharpoonup> node"
  logs :: "path \<rightharpoonup> string"
  master_txt :: "string option"
  master_gz :: "string option"
  master_bz2 :: "string option"
  resume_file :: "path list option"
  console :: "message list"

definition print :: "message \<Rightarrow> store \<Rightarrow> store" where
  "print m st = st\<lparr>console := console st @ [m]\<rparr>"

subsection \<open>Master store\<close>

text \<open>The write loop shared by the three branches of \<^verbatim>\<open>save_master\<close>:
  \<^verbatim>\<open>for word in sorted(words): outfile.write(word + "\n")\<close>.\<close>

definition write_words :: "string set \<Rightarrow> string" where
  "write_words words = concat (map (\<lambda>word. word @ [LF]) (sorted_list_of_set words))"

definition save_master :: "store \<Rightarrow> string set \<Rightarrow> string option \<Rightarrow> store" where
  "save_master st words compress =
     (if compress = Some ''gzip'' then st\<lparr>master_gz := Some (write_words words)\<rparr>
      else if compress = Some ''bz2'' then st\<lparr>master_bz2 := Some (write_words words)\<rparr>
      else st\<lparr>master_txt := Some (write_words words)\<rparr>)"

text \<open>\<^verbatim>\<open>set(line.strip() for line in infile if line.strip())\<close>\<close>

definition words_of_text :: "string \<Rightarrow> string set" where
  "words_of_text t = set (filter (\<lambda>w. w \<noteq> []) (map strip (py_lines t)))"

text \<open>Lines 235-244 of \<^verbatim>\<open>add_to_master\<close>: the first representation found is loaded.\<close>

definition load_master :: "store \<Rightarrow> string set" where
  "load_master st =
     (case master_txt st of
        Some t \<Rightarrow> words_of_text t
      | None \<Rightarrow>
          (case master_gz st of
             Some t \<Rightarrow> words_of_text t
           | None \<Rightarrow>
               (case master_bz2 st of
                  Some t \<Rightarrow> words_of_text t
                | None \<Rightarrow> {})))"

text \<open>The file that \<^verbatim>\<open>save_master\<close> writes for a given \<^verbatim>\<open>compress\<close> argument.\<close>

definition saved_file :: "store \<Rightarrow> string option \<Rightarrow> string option" where
  "saved_file st compress =
     (if compress = Some ''gzip'' then master_gz st
      else if compress = Some ''bz2'' then master_bz2 st
      else master_txt st)"

text \<open>A line without its terminator.\<close>

definition chomp :: "string \<Rightarrow> string" where
  "chomp l = (if l \<noteq> [] \<and> last l = LF then butlast l else l)"

subsection \<open>Progress ledger\<close>

text \<open>
  \<^verbatim>\<open>log_action\<close> appends one line; the timestamp \<^verbatim>\<open>datetime.now().isoformat()\<close> is
  an input from the environment (\<open>ts\<close>).
\<close>

definition log_line :: "string \<Rightarrow> string \<Rightarrow> path \<Rightarrow> nat \<Rightarrow> string" where
  "log_line ts action p word_count =
     ts @ '' | '' @ ljust 6 action @ '' | '' @ p @ '' | '' @ str_nat word_count @ '' words'' @ [LF]"

definition log_action :: "store \<Rightarrow> string \<Rightarrow> path \<Rightarrow> string \<Rightarrow> path \<Rightarrow> nat \<Rightarrow> store" where
  "log_action st ts log_path action p word_count =
     st\<lparr>logs := (logs st)(log_path \<mapsto>
        (case logs st log_path of None \<Rightarrow> [] | Some t \<Rightarrow> t) @ log_line ts action p word_count)\<rparr>"

text \<open>Python's truth value of an optional string: \<^verbatim>\<open>None\<close> and \<^verbatim>\<open>""\<close> are false.\<close>

definition truthy :: "string option \<Rightarrow> bool" where
  "truthy s = (case s of None \<Rightarrow> False | Some x \<Rightarrow> x \<noteq> [])"

text \<open>The loop of \<^verbatim>\<open>load_logged_files\<close> over the lines of the log.\<close>

fun scan_log :: "string list \<Rightarrow> path set \<Rightarrow> path set" where
  "scan_log [] logged = logged"
| "scan_log (line # rest) logged =
     (let parts = split_on (CHR ''|'') (strip line)
      in if length parts \<ge> 3
         then scan_log rest (insert (strip (parts ! 2)) logged)
         else scan_log rest logged)"

definition load_logged_files :: "store \<Rightarrow> path option \<Rightarrow> path set" where
  "load_logged_files st log_path =
     (case log_path of
        None \<Rightarrow> {}
      | Some lp \<Rightarrow>
          if lp = [] then {}
          else (case logs st lp of None \<Rightarrow> {} | Some t \<Rightarrow> scan_log (py_lines t) {}))"

subsection \<open>Checkpoint store\<close>

definition save_resume_state :: "store \<Rightarrow> path list \<Rightarrow> store" where
  "save_resume_state st pending_files = st\<lparr>resume_file := Some pending_files\<rparr>"

definition load_resume_state :: "store \<Rightarrow> path list option" where
  "load_resume_state st = resume_file st"

subsection \<open>Ingestion worker\<close>

text \<open>
  What the environment does to one call of \<^verbatim>\<open>collect_words_from_file\<close>:
  \<^item> \<open>first_pass\<close>, \<open>second_pass\<close>: the failure, if any, of the first and of the second
    \<^verbatim>\<open>open\<close> of the source and of the reads that follow it. \<open>ReadFails k\<close> raises when the
    line after the first \<open>k\<close> is fetched (at the end of the file when it has fewer);
  \<^item> \<open>sigint_at\<close>: \<open>Some k\<close> when the signal handler sets the global \<^verbatim>\<open>should_exit\<close>
    after this worker has read the flag \<open>k\<close> times and before its next read, \<open>None\<close> when the
    handler does not run while this worker lives. The flag is never reset;
  \<^item> \<open>now\<close>: the timestamp of its log entry.

  The worker reads the flag once per line and once more before logging. \<^verbatim>\<open>SIGINT\<close> only
  sets the flag (the handler replaces the default one), so no \<^verbatim>\<open>KeyboardInterrupt\<close> is
  raised.
\<close>

datatype read_fault = NoFault | OpenFails | ReadFails nat

record worker_env =
  first_pass :: read_fault
  second_pass :: read_fault
  sigint_at :: "nat option"
  now :: string

text \<open>The value of \<^verbatim>\<open>should_exit\<close> at a thread's read number \<open>j\<close> (from 0).\<close>

definition should_exit :: "nat option \<Rightarrow> nat \<Rightarrow> bool" where
  "should_exit sig j = (case sig of None \<Rightarrow> False | Some k \<Rightarrow> k \<le> j)"

text \<open>
  \<^verbatim>\<open>open(path, "r", errors="ignore")\<close> and the iteration over the file: \<open>None\<close> when
  \<^verbatim>\<open>open\<close> raises (the path is no regular file, or the fault), otherwise the lines that
  the iterator yields and whether it then ends normally (\<open>True\<close>) or raises (\<open>False\<close>).
\<close>

definition open_text :: "store \<Rightarrow> path \<Rightarrow> read_fault \<Rightarrow> (string list \<times> bool) option" where
  "open_text st p flt =
     (case nodes st p of
        Some (File t) \<Rightarrow>
          (case flt of
             NoFault \<Rightarrow> Some (py_lines t, True)
           | OpenFails \<Rightarrow> None
           | ReadFails k \<Rightarrow> Some (take k (py_lines t), False))
      | _ \<Rightarrow> None)"

text \<open>
  The second loop of \<^verbatim>\<open>collect_words_from_file\<close>, at the worker's read number \<open>j\<close> of
  the flag; the result says whether it left by \<^verbatim>\<open>break\<close>.
\<close>

fun read_words :: "nat option \<Rightarrow> nat \<Rightarrow> string list \<Rightarrow> string set \<Rightarrow> bool \<times> string set" where
  "read_words sig j [] words = (False, words)"
| "read_words sig j (line # rest) words =
     (if should_exit sig j then (True, words)
      else let word = strip line
           in read_words sig (Suc j) rest (if word \<noteq> [] then insert word words else words))"

text \<open>
  The worker. An exception in the \<^verbatim>\<open>try\<close> block is reported and \<^verbatim>\<open>words\<close> returned as
  it is then. The test before logging is read number \<open>length lines\<close> when the loop ran to
  the end; after a \<^verbatim>\<open>break\<close> the flag is set at every later read.
\<close>

definition collect_words_from_file ::
  "worker_env \<Rightarrow> store \<Rightarrow> path \<Rightarrow> path option \<Rightarrow> string option \<Rightarrow> string set \<times> store" where
  "collect_words_from_file we st p log_path action =
     (case open_text st p (first_pass we) of
        None \<Rightarrow> ({}, print (ErrorReading p) st)
      | Some (counted, eof1) \<Rightarrow>
          if \<not> eof1 then ({}, print (ErrorReading p) st)
          else
            (case open_text st p (second_pass we) of
               None \<Rightarrow> ({}, print (ErrorReading p) st)
             | Some (lines, eof2) \<Rightarrow>
                 (case read_words (sigint_at we) 0 lines {} of
                    (broke, words) \<Rightarrow>
                      if \<not> broke \<and> \<not> eof2 then (words, print (ErrorReading p) st)
                      else if truthy log_path \<and> truthy action
                              \<and> \<not> should_exit (sigint_at we) (length lines)
                      then (words, log_action st (now we) (the log_path) (the action) p (card words))
                      else (words, st))))"

subsection \<open>Merge coordinator\<close>

text \<open>
  The environment of a run: one \<open>worker_env\<close> per dispatched source (by position in the
  dispatch sequence), \<open>merge_sigint_at\<close> for the coordinator's reads of \<^verbatim>\<open>should_exit\<close>
  in its merge loop, and \<open>late_sigint\<close> when the handler runs after all those reads and before
  the final test of the flag. Each thread sees the flag through its own \<open>sigint_at\<close>, so
  every interleaving of the pool is some environment; the workers' log entries are appended in
  dispatch order and the results merged in dispatch order, where a real run may permute both.
\<close>

record run_env =
  worker :: "nat \<Rightarrow> worker_env"
  merge_sigint_at :: "nat option"
  late_sigint :: bool

text \<open>The flag at the test of line 193, for a run that dispatched \<open>n\<close> sources.\<close>

definition interrupted :: "run_env \<Rightarrow> nat \<Rightarrow> bool" where
  "interrupted env n =
     (list_ex (\<lambda>i. sigint_at (worker env i) \<noteq> None) [0..<n]
      \<or> merge_sigint_at env \<noteq> None \<or> late_sigint env)"

datatype 'a flow = Returned 'a | Exited | Raised

definition isfile :: "store \<Rightarrow> path \<Rightarrow> bool" where
  "isfile st p = (case nodes st p of Some (File t) \<Rightarrow> True | _ \<Rightarrow> False)"

definition isdir :: "store \<Rightarrow> path \<Rightarrow> bool" where
  "isdir st p = (case nodes st p of Some (Dir names) \<Rightarrow> True | _ \<Rightarrow> False)"

definition path_join :: "path \<Rightarrow> string \<Rightarrow> path" where
  "path_join d n =
     (if d = [] then n else if last d = CHR ''/'' then d @ n else d @ ''/'' @ n)"

text \<open>A name matches \<^verbatim>\<open>*.txt\<close> under \<^verbatim>\<open>glob\<close>: it ends in \<^verbatim>\<open>.txt\<close> and is not hidden.\<close>

definition matches_txt :: "string \<Rightarrow> bool" where
  "matches_txt n = (4 \<le> length n \<and> drop (length n - 4) n = ''.txt'' \<and> hd n \<noteq> CHR ''.'')"

text \<open>\<^verbatim>\<open>glob.glob(os.path.join(folder, "*.txt"))\<close> for a folder name without wildcard
  characters.\<close>

definition glob_txt :: "store \<Rightarrow> path \<Rightarrow> path list" where
  "glob_txt st folder =
     (case nodes st folder of
        Some (Dir names) \<Rightarrow> map (path_join folder) (filter matches_txt names)
      | _ \<Rightarrow> [])"

text \<open>Lines 151-156 and 158-163: the two enumeration loops.\<close>

fun add_files :: "path list \<Rightarrow> path list \<Rightarrow> store \<Rightarrow> path list \<times> store" where
  "add_files [] all_files st = (all_files, st)"
| "add_files (f # rest) all_files st =
     (if isfile st f then add_files rest (all_files @ [f]) st
      else add_files rest all_files (print (FileNotFound f) st))"

fun add_folders :: "path list \<Rightarrow> path list \<Rightarrow> store \<Rightarrow> path list \<times> store" where
  "add_folders [] all_files st = (all_files, st)"
| "add_folders (folder # rest) all_files st =
     (if isdir st folder then add_folders rest (all_files @ glob_txt st folder) st
      else add_folders rest all_files (print (FolderNotFound folder) st))"

definition enumerate_sources :: "store \<Rightarrow> path list \<Rightarrow> path list \<Rightarrow> path list \<times> store" where
  "enumerate_sources st files folders =
     (case add_files files [] st of (all_files, st1) \<Rightarrow> add_folders folders all_files st1)"

text \<open>Lines 168-171.\<close>

definition skip_logged_files :: "store \<Rightarrow> path option \<Rightarrow> bool \<Rightarrow> path list \<Rightarrow> path list" where
  "skip_logged_files st log_path skip_logged all_files =
     (if skip_logged \<and> truthy log_path
      then filter (\<lambda>f. f \<notin> load_logged_files st log_path) all_files
      else all_files)"

text \<open>Lines 173-177.\<close>

definition resume_files :: "store \<Rightarrow> bool \<Rightarrow> path list \<Rightarrow> path list" where
  "resume_files st resume all_files =
     (if resume
      then (case load_resume_state st of
              None \<Rightarrow> all_files
            | Some pending \<Rightarrow> if pending \<noteq> [] then pending else all_files)
      else all_files)"

text \<open>The pool: one call of \<^verbatim>\<open>collect_words_from_file\<close> per element of the sequence.\<close>

fun run_workers ::
  "run_env \<Rightarrow> nat \<Rightarrow> path list \<Rightarrow> path option \<Rightarrow> string option \<Rightarrow> store
     \<Rightarrow> string set list \<times> store" where
  "run_workers env i [] log_path action st = ([], st)"
| "run_workers env i (f # rest) log_path action st =
     (case collect_words_from_file (worker env i) st f log_path action of
        (words, st1) \<Rightarrow>
          (case run_workers env (Suc i) rest log_path action st1 of
             (results, st2) \<Rightarrow> (words # results, st2)))"

text \<open>Lines 186-189: the merge loop over the completed futures.\<close>

fun merge_results :: "nat option \<Rightarrow> nat \<Rightarrow> string set list \<Rightarrow> string set \<Rightarrow> string set" where
  "merge_results sig j [] words = words"
| "merge_results sig j (r # rest) words =
     (if should_exit sig j then words else merge_results sig (Suc j) rest (words \<union> r))"

text \<open>
  The sequence dispatched to the pool (\<^verbatim>\<open>all_files\<close> at line 181), when line 166 did not
  return before.
\<close>

definition dispatch_sequence ::
  "store \<Rightarrow> path list \<Rightarrow> path list \<Rightarrow> path option \<Rightarrow> bool \<Rightarrow> bool \<Rightarrow> path list" where
  "dispatch_sequence st files folders log_path skip_logged resume =
     (case enumerate_sources st files folders of
        (all_files, st1) \<Rightarrow>
          if all_files = [] then []
          else resume_files st1 resume (skip_logged_files st1 log_path skip_logged all_files))"

text \<open>
  Lines 179-201, from the dispatch of \<^verbatim>\<open>all_files\<close> on.
  \<^verbatim>\<open>ThreadPoolExecutor(max_workers=threads)\<close> raises for \<open>threads = 0\<close>, which nothing
  catches. Leaving the \<^verbatim>\<open>with\<close> block waits for every worker, so the log is read at line
  194 after all of them. \<^verbatim>\<open>sys.exit(0)\<close> is the result \<open>Exited\<close>; removing
  \<^verbatim>\<open>RESUME_FILE\<close> sets \<open>resume_file\<close> to \<open>None\<close>.
\<close>

definition ingest ::
  "run_env \<Rightarrow> store \<Rightarrow> path list \<Rightarrow> nat \<Rightarrow> path option \<Rightarrow> string option
     \<Rightarrow> string set flow \<times> store" where
  "ingest env st all_files threads log_path action =
     (let remaining = all_files
      in if threads = 0 then (Raised, st)
         else
           (case run_workers env 0 all_files log_path action st of
              (results, st2) \<Rightarrow>
                let words = merge_results (merge_sigint_at env) 0 results {}
                in if interrupted env (length all_files)
                   then (Exited,
                         save_resume_state st2
                           (filter (\<lambda>f. f \<notin> load_logged_files st2 log_path) remaining))
                   else (Returned words, st2\<lparr>resume_file := None\<rparr>)))"

definition collect_words_from_inputs ::
  "run_env \<Rightarrow> store \<Rightarrow> path list \<Rightarrow> path list \<Rightarrow> nat \<Rightarrow> path option \<Rightarrow> string option
     \<Rightarrow> bool \<Rightarrow> bool \<Rightarrow> string set flow \<times> store" where
  "collect_words_from_inputs env st files folders threads log_path action skip_logged resume =
     (case enumerate_sources st files folders of
        (enumerated, st1) \<Rightarrow>
          if enumerated = [] then (Returned {}, st1)
          else ingest env st1
                 (resume_files st1 resume (skip_logged_files st1 log_path skip_logged enumerated))
                 threads log_path action)"

subsection \<open>Create and add\<close>

datatype status = Completed | Interrupted | Crashed | NoMaster


definition add_to_master ::
  "run_env \<Rightarrow> store \<Rightarrow> path list \<Rightarrow> path list \<Rightarrow> nat \<Rightarrow> path option \<Rightarrow> bool \<Rightarrow> bool
     \<Rightarrow> string option \<Rightarrow> status \<times> store" where
  "add_to_master env st files folders threads log_path skip_logged resume compress =
     (if master_txt st = None \<and> master_gz st = None \<and> master_bz2 st = None
      then (NoMaster, print NoMasterFound st)
      else
        let existing = load_master st
        in (case collect_words_from_inputs env st files folders threads log_path (Some ''ADD'')
                   skip_logged resume of
              (Returned words, st1) \<Rightarrow> (Completed, save_master st1 (existing \<union> words) compress)
            | (Exited, st1) \<Rightarrow> (Interrupted, st1)
            | (Raised, st1) \<Rightarrow> (Crashed, st1)))"

subsection \<open>Notions used in the statements\<close>

text \<open>
  The words of a sequence of lines, and the lines and words of a source as the state holds it
  (a path that is no regular file has none).
\<close>

definition words_of_lines :: "string list \<Rightarrow> string set" where
  "words_of_lines ls = set (filter (\<lambda>w. w \<noteq> []) (map strip ls))"

definition source_lines :: "store \<Rightarrow> path \<Rightarrow> string list" where
  "source_lines st p = (case nodes st p of Some (File t) \<Rightarrow> py_lines t | _ \<Rightarrow> [])"

definition source_words :: "store \<Rightarrow> path \<Rightarrow> string set" where
  "source_words st p = words_of_lines (source_lines st p)"

text \<open>A source that a worker cannot read to its end: no regular file, or a fault in a pass.\<close>

definition unreadable :: "worker_env \<Rightarrow> store \<Rightarrow> path \<Rightarrow> bool" where
  "unreadable we st p =
     (\<not> isfile st p \<or> first_pass we \<noteq> NoFault \<or> second_pass we \<noteq> NoFault)"

text \<open>
  What a source adds to the merged set when its worker never sees the flag set: nothing when
  the open or the counting pass fails, the words of the lines read before the failure when the
  second pass fails, and all its words otherwise.
\<close>

definition contribution :: "worker_env \<Rightarrow> store \<Rightarrow> path \<Rightarrow> string set" where
  "contribution we st p =
     (if \<not> isfile st p \<or> first_pass we \<noteq> NoFault then {}
      else (case second_pass we of
              NoFault \<Rightarrow> source_words st p
            | OpenFails \<Rightarrow> {}
            | ReadFails k \<Rightarrow> words_of_lines (take k (source_lines st p))))"

text \<open>
  A word as the round trip needs it: not empty, no line feed and no carriage return inside,
  no whitespace at either end.
\<close>

definition plain_word :: "string \<Rightarrow> bool" where
  "plain_word w =
     (w \<noteq> [] \<and> LF \<notin> set w \<and> CR \<notin> set w \<and> \<not> isspace (hd w) \<and> \<not> isspace (last w))"

text \<open>
  A worker that read its source to the end and did not see the flag set up to its test before
  logging; and the sources of a dispatch sequence whose workers did so.
\<close>

definition finished :: "worker_env \<Rightarrow> store \<Rightarrow> path \<Rightarrow> bool" where
  "finished we st p =
     (\<not> unreadable we st p \<and> \<not> should_exit (sigint_at we) (length (source_lines st p)))"

definition finished_sources :: "run_env \<Rightarrow> store \<Rightarrow> path list \<Rightarrow> path list" where
  "finished_sources env st fs =
     map (\<lambda>j. fs ! j) (filter (\<lambda>j. finished (worker env j) st (fs ! j)) [0..<length fs])"

text \<open>
  The path that \<^verbatim>\<open>load_logged_files\<close> takes from one line of the log, if any (the body of
  its loop).
\<close>

definition entry_path :: "string \<Rightarrow> path option" where
  "entry_path line =
     (let parts = split_on (CHR ''|'') (strip line)
      in if length parts \<ge> 3 then Some (strip (parts ! 2)) else None)"

text \<open>
  A field that a log line can hold and give back: no separator, no line break. A path that
  comes back from the log as it went in: such a field, not empty, no whitespace at its ends.
  A text of complete lines, and a log that is one (every log that only \<^verbatim>\<open>log_action\<close>
  wrote).
\<close>

definition plain_field :: "string \<Rightarrow> bool" where
  "plain_field s = (CHR ''|'' \<notin> set s \<and> LF \<notin> set s \<and> CR \<notin> set s)"

definition plain_path :: "path \<Rightarrow> bool" where
  "plain_path p = (plain_field p \<and> p \<noteq> [] \<and> \<not> isspace (hd p) \<and> \<not> isspace (last p))"

definition complete_text :: "string \<Rightarrow> bool" where
  "complete_text t = (t = [] \<or> last t = LF)"

definition log_complete :: "store \<Rightarrow> path \<Rightarrow> bool" where
  "log_complete st lp = (case logs st lp of None \<Rightarrow> True | Some t \<Rightarrow> complete_text t)"

subsection \<open>Example states and environments\<close>

text \<open>
  The input tree of the examples: \<^verbatim>\<open>a.txt\<close> and \<^verbatim>\<open>b.txt\<close> are the two sources of the
  specification's scenario; no log, no master, no checkpoint.
\<close>

definition example_store :: store where
  "example_store =
     \<lparr>nodes = [''a.txt'' \<mapsto> File (''foo'' @ [LF] @ '' bar '' @ [LF, LF] @ ''foo'' @ [LF]),
               ''b.txt'' \<mapsto> File (''baz'' @ [LF] @ ''foo'' @ [LF]),
               ''c.txt'' \<mapsto> File (''qux'' @ [LF]),
               ''empty.txt'' \<mapsto> File [],
               ''lists'' \<mapsto> Dir [''x.txt'', ''notes.md'', ''.hidden.txt''],
               ''lists/x.txt'' \<mapsto> File (''one'' @ [LF])],
      logs = Map.empty, master_txt = None, master_gz = None, master_bz2 = None,
      resume_file = None, console = []\<rparr>"

text \<open>The same tree after an earlier run logged \<^verbatim>\<open>a.txt\<close>.\<close>

definition logged_store :: store where
  "logged_store =
     example_store\<lparr>logs := [''listman.log'' \<mapsto>
                                log_line ''2025-12-31T23:59:59'' ''CREATE'' ''a.txt'' 2]\<rparr>"

text \<open>A worker that nothing disturbs, and a run of such workers.\<close>

definition quiet_worker :: worker_env where
  "quiet_worker =
     \<lparr>first_pass = NoFault, second_pass = NoFault, sigint_at = None,
      now = ''2026-01-01T00:00:00''\<rparr>"

definition quiet :: run_env where
  "quiet = \<lparr>worker = (\<lambda>i. quiet_worker), merge_sigint_at = None, late_sigint = False\<rparr>"

text \<open>
  The first worker finishes undisturbed; every later worker sees the flag at its second read,
  and the coordinator after it merged one result.
\<close>

definition sigint_after_first :: run_env where
  "sigint_after_first =
     \<lparr>worker = (\<lambda>i. quiet_worker\<lparr>sigint_at := (if i = 0 then None else Some 1)\<rparr>),
      merge_sigint_at = Some 1, late_sigint = False\<rparr>"

text \<open>No signal; the second pass over the second source fails after one line.\<close>

definition second_read_fails :: run_env where
  "second_read_fails =
     \<lparr>worker = (\<lambda>i. quiet_worker\<lparr>second_pass := (if i = 1 then ReadFails 1 else NoFault)\<rparr>),
      merge_sigint_at = None, late_sigint = False\<rparr>"

section \<open>Properties of the text primitives\<close>

lemma isspace_LF: "isspace LF"
  by (simp add: isspace_def LF_def)

lemma CR_neq_LF: "CR \<noteq> LF"
  by (simp add: CR_def LF_def)

lemma universal_newlines_no_CR: "CR \<notin> set t \<Longrightarrow> universal_newlines t = t"
  by (induction t rule: universal_newlines.induct) auto


lemma split_lines_line: "LF \<notin> set w \<Longrightarrow> split_lines (w @ LF # rest) = (w @ [LF]) # split_lines rest"
  by (induction w) auto

lemma split_lines_written:
  "\<forall>w\<in>set ws. LF \<notin> set w \<Longrightarrow> split_lines (concat (map (\<lambda>w. w @ [LF]) ws)) = map (\<lambda>w. w @ [LF]) ws"
  by (induction ws) (auto simp: split_lines_line)

lemma py_lines_written:
  assumes "\<forall>w\<in>set ws. LF \<notin> set w \<and> CR \<notin> set w"
  shows "py_lines (concat (map (\<lambda>w. w @ [LF]) ws)) = map (\<lambda>w. w @ [LF]) ws"
proof -
  have "CR \<notin> set (concat (map (\<lambda>w. w @ [LF]) ws))"
    using assms by (auto simp: CR_def LF_def)
  then show ?thesis
    using assms by (simp add: py_lines_def universal_newlines_no_CR split_lines_written)
qed


lemma chomp_line: "chomp (w @ [LF]) = w"
  by (simp add: chomp_def)


lemma strip_snoc_space:
  assumes "isspace x"
  shows "strip (b @ [x]) = strip b"
proof (cases "\<forall>y\<in>set b. isspace y")
  case True
  then have d: "dropWhile isspace b = []" by simp
  from True assms have e: "dropWhile isspace (b @ [x]) = []" by simp
  show ?thesis unfolding strip_def d e by simp
next
  case False
  with assms show ?thesis by (auto simp: strip_def dropWhile_append)
qed

lemma strip_plain: 
  assumes "w \<noteq> []" "\<not> isspace (hd w)" "\<not> isspace (last w)" 
  shows "strip w = w"
proof -
  from assms have a: "dropWhile isspace w = w" by (cases w) auto
  from assms have "dropWhile isspace (rev w) = rev w" by (cases w rule: rev_cases) auto
  with a show ?thesis by (simp add: strip_def)
qed


lemma strip_between:
  assumes "\<not> isspace d"
  shows "strip (A @ d # M @ d # D) = dropWhile isspace A @ d # M @ d # rev (dropWhile isspace (rev D))"
proof -
  have 1: "dropWhile isspace (A @ d # M @ d # D) = dropWhile isspace A @ d # M @ d # D"
    using assms by (simp add: dropWhile_append3)
  have r: "rev (dropWhile isspace A @ d # M @ d # D) = rev D @ d # (rev M @ d # rev (dropWhile isspace A))"
    by simp
  have 2: "dropWhile isspace (rev (dropWhile isspace A @ d # M @ d # D))
              = dropWhile isspace (rev D) @ d # (rev M @ d # rev (dropWhile isspace A))"
    unfolding r using assms by (rule dropWhile_append3)
  show ?thesis unfolding strip_def 1 2 by simp
qed

lemma split_on_last: "d \<notin> set u \<Longrightarrow> split_on d u = [u]"
  by (induction u) auto

lemma split_on_field: "d \<notin> set u \<Longrightarrow> split_on d (u @ d # v) = u # split_on d v"
  by (induction u) auto

lemma str_nat_digits: "set (str_nat n) \<subseteq> set ''0123456789''"
proof (induction n rule: str_nat.induct)
  case (1 n)
  have d: "''0123456789'' ! k \<in> set ''0123456789''" if "k < 10" for k
    using that by (intro nth_mem) simp
  show ?case
  proof (cases "n < 10")
    case True
    then show ?thesis using d[of n] by (subst str_nat.simps) simp
  next
    case False
    have "n mod 10 < 10" by simp
    with False 1 d[of "n mod 10"] show ?thesis by (subst str_nat.simps) auto
  qed
qed

lemma universal_newlines_append:
  "t = [] \<or> last t \<noteq> CR \<Longrightarrow> universal_newlines (t @ u) = universal_newlines t @ universal_newlines u"
proof (induction t rule: universal_newlines.induct)
  case 1
  then show ?case by simp
next
  case (2 c)
  then show ?case by (cases u) auto
next
  case (3 c d cs)
  then show ?case by (cases cs) auto
qed

lemma universal_newlines_complete:
  "t \<noteq> [] \<Longrightarrow> last t = LF \<Longrightarrow> universal_newlines t \<noteq> [] \<and> last (universal_newlines t) = LF"
proof (induction t rule: universal_newlines.induct)
  case 1
  then show ?case by simp
next
  case (2 c)
  then show ?case by simp
next
  case (3 c d cs)
  then show ?case by (cases cs) auto
qed

lemma split_lines_nonempty: "x \<noteq> [] \<Longrightarrow> split_lines x \<noteq> []"
  by (cases x) (auto split: list.splits)

lemma split_lines_append:
  "x = [] \<or> last x = LF \<Longrightarrow> split_lines (x @ y) = split_lines x @ split_lines y"
proof (induction x)
  case Nil
  then show ?case by simp
next
  case (Cons c cs)
  show ?case
  proof (cases "c = LF")
    case True
    with Cons show ?thesis by (cases "cs = []") auto
  next
    case False
    with Cons.prems have ne: "cs \<noteq> []" and l: "last cs = LF" by (auto split: if_splits)
    from Cons.IH l have "split_lines (cs @ y) = split_lines cs @ split_lines y" by simp
    moreover from split_lines_nonempty[OF ne] obtain h r where "split_lines cs = h # r"
      by (cases "split_lines cs") auto
    ultimately show ?thesis using False by simp
  qed
qed

lemma py_lines_append:
  assumes "complete_text t"
  shows "py_lines (t @ u) = py_lines t @ py_lines u"
proof (cases "t = []")
  case True
  then show ?thesis by (simp add: py_lines_def)
next
  case False
  with assms have l: "last t = LF" by (simp add: complete_text_def)
  then have "last t \<noteq> CR" using CR_neq_LF by simp
  then have "universal_newlines (t @ u) = universal_newlines t @ universal_newlines u"
    by (simp add: universal_newlines_append)
  moreover have "last (universal_newlines t) = LF"
    using universal_newlines_complete[OF False l] by simp
  ultimately show ?thesis by (simp add: py_lines_def split_lines_append)
qed

section \<open>Properties of the master store\<close>



lemma write_words_lines:
  assumes "finite words" "\<forall>w\<in>words. LF \<notin> set w \<and> CR \<notin> set w"
  shows "py_lines (write_words words) = map (\<lambda>w. w @ [LF]) (sorted_list_of_set words)"
  unfolding write_words_def using assms by (intro py_lines_written) simp

lemma saved_lines:
  assumes "finite words" and "\<forall>w\<in>words. LF \<notin> set w \<and> CR \<notin> set w"
  shows "map chomp (py_lines (write_words words)) = sorted_list_of_set words"
  using assms by (simp add: write_words_lines o_def chomp_line)

lemma saved_file_save_master: "saved_file (save_master st words compress) compress = Some (write_words words)"
  by (simp add: saved_file_def save_master_def)

lemma words_of_text_written:
  assumes "finite words" "\<forall>w\<in>words. plain_word w"
  shows "words_of_text (write_words words) = words"
proof -
  have l: "py_lines (write_words words) = map (\<lambda>w. w @ [LF]) (sorted_list_of_set words)"
    using assms by (intro write_words_lines) (auto simp: plain_word_def)
  have "strip (w @ [LF]) = w" if "w \<in> words" for w
    using that assms(2) by (simp add: strip_snoc_space isspace_LF strip_plain plain_word_def)
  then have "map strip (map (\<lambda>w. w @ [LF]) (sorted_list_of_set words)) = sorted_list_of_set words"
    using assms(1) by (auto intro!: map_idI)
  moreover have "filter (\<lambda>w. w \<noteq> []) (sorted_list_of_set words) = sorted_list_of_set words"
    using assms by (auto simp: plain_word_def filter_id_conv)
  ultimately show ?thesis using assms(1) by (simp add: words_of_text_def l)
qed

section \<open>Properties of the ledger\<close>

text \<open>The set that the loop of \<^verbatim>\<open>load_logged_files\<close> builds does not depend on the order
  of the lines.\<close>

lemma scan_log_paths: "scan_log ls logged = logged \<union> {p. \<exists>l\<in>set ls. entry_path l = Some p}"
  by (induction ls arbitrary: logged) (auto simp: entry_path_def Let_def split: if_splits)

lemma strip_spaced:
  assumes "plain_path p"
  shows "strip (CHR '' '' # p @ '' '') = p"
proof -
  have sp: "isspace (CHR '' '')" by (simp add: isspace_def)
  from assms have p: "p \<noteq> []" "\<not> isspace (hd p)" "\<not> isspace (last p)" by (auto simp: plain_path_def)
  have "strip (CHR '' '' # p @ '' '') = strip ((CHR '' '' # p) @ [CHR '' ''])" by simp
  also have "\<dots> = strip (CHR '' '' # p)" using sp by (rule strip_snoc_space)
  also have "\<dots> = strip p" using sp by (simp add: strip_def)
  also have "\<dots> = p" using p by (rule strip_plain)
  finally show ?thesis .
qed

text \<open>A line written by \<^verbatim>\<open>log_action\<close> for a plain path is read back as that path.\<close>

lemma logged_path_of_line:
  assumes "plain_field ts" "plain_field a" "plain_path p"
  shows "length (split_on (CHR ''|'') (strip (log_line ts a p n))) \<ge> 3
       \<and> strip (split_on (CHR ''|'') (strip (log_line ts a p n)) ! 2) = p"
proof -
  define A where "A = dropWhile isspace (ts @ '' '')"
  define B where "B = '' '' @ ljust 6 a @ '' ''"
  define C where "C = '' '' @ p @ '' ''"
  define D where "D = rev (dropWhile isspace (rev ('' '' @ str_nat n @ '' words'' @ [LF])))"
  have nb: "\<not> isspace (CHR ''|'')" by (simp add: isspace_def)
  have l: "log_line ts a p n = (ts @ '' '') @ CHR ''|'' # (B @ CHR ''|'' # C) @ CHR ''|'' # ('' '' @ str_nat n @ '' words'' @ [LF])"
    by (simp add: log_line_def B_def C_def)
  have s: "strip (log_line ts a p n) = A @ CHR ''|'' # (B @ CHR ''|'' # C) @ CHR ''|'' # D"
    unfolding l A_def D_def using nb by (rule strip_between)
  have a: "CHR ''|'' \<notin> set A"
    using assms(1) set_dropWhileD[of _ isspace "ts @ '' ''"] by (auto simp: A_def plain_field_def)
  have b: "CHR ''|'' \<notin> set B"
    using assms(2) by (auto simp: B_def plain_field_def ljust_def)
  have c: "CHR ''|'' \<notin> set C"
    using assms(3) by (auto simp: C_def plain_path_def plain_field_def)
  have "CHR ''|'' \<notin> set ('' '' @ str_nat n @ '' words'' @ [LF])"
    using str_nat_digits[of n] by (auto simp: LF_def)
  then have d: "CHR ''|'' \<notin> set D"
    using set_dropWhileD[of _ isspace "rev ('' '' @ str_nat n @ '' words'' @ [LF])"]
    unfolding D_def set_rev by blast
  have "split_on (CHR ''|'') (strip (log_line ts a p n)) = [A, B, C, D]"
    using a b c d by (simp add: s split_on_field split_on_last)
  moreover have "strip C = p" using strip_spaced[OF assms(3)] by (simp add: C_def)
  ultimately show ?thesis by simp
qed

lemma py_lines_log_line:
  assumes "plain_field ts" "plain_field a" "plain_field p"
  shows "py_lines (log_line ts a p n) = [log_line ts a p n]"
proof -
  define body where "body = ts @ '' | '' @ ljust 6 a @ '' | '' @ p @ '' | '' @ str_nat n @ '' words''"
  have "LF \<notin> set (str_nat n)" "CR \<notin> set (str_nat n)"
    using str_nat_digits[of n] by (auto simp: LF_def CR_def)
  with assms have "\<forall>w\<in>set [body]. LF \<notin> set w \<and> CR \<notin> set w"
    by (auto simp: body_def plain_field_def ljust_def LF_def CR_def)
  from py_lines_written[OF this] show ?thesis by (simp add: body_def log_line_def)
qed

lemma complete_log_line: "complete_text (t @ log_line ts a p n)"
  by (simp add: complete_text_def log_line_def)

lemma load_logged_files_cong: "logs st' = logs st \<Longrightarrow> load_logged_files st' lp = load_logged_files st lp"
  by (simp add: load_logged_files_def split: option.splits)

lemma load_logged_files_disabled: "\<not> truthy log_path \<Longrightarrow> load_logged_files st log_path = {}"
  by (auto simp: truthy_def load_logged_files_def split: option.splits)

lemma log_action_logged:
  assumes "lp \<noteq> []" "log_complete st lp" "plain_field ts" "plain_field a" "plain_path p"
  shows "load_logged_files (log_action st ts lp a p n) (Some lp)
           = insert p (load_logged_files st (Some lp))"
    and "log_complete (log_action st ts lp a p n) lp"
proof -
  define old where "old = (case logs st lp of None \<Rightarrow> [] | Some t \<Rightarrow> t)"
  have c: "complete_text old"
    using assms(2) by (auto simp: old_def log_complete_def complete_text_def split: option.splits)
  have o: "load_logged_files st (Some lp) = scan_log (py_lines old) {}"
    using assms(1) by (auto simp: load_logged_files_def old_def py_lines_def split: option.splits)
  have pf: "plain_field p" using assms(5) by (simp add: plain_path_def)
  have "py_lines (old @ log_line ts a p n) = py_lines old @ [log_line ts a p n]"
    using py_lines_append[OF c] py_lines_log_line[OF assms(3,4) pf] by simp
  moreover have "entry_path (log_line ts a p n) = Some p"
    using logged_path_of_line[OF assms(3,4,5), of n] by (simp add: entry_path_def Let_def)
  ultimately have "scan_log (py_lines (old @ log_line ts a p n)) {} = insert p (scan_log (py_lines old) {})"
    by (auto simp: scan_log_paths)
  moreover have "load_logged_files (log_action st ts lp a p n) (Some lp)
           = scan_log (py_lines (old @ log_line ts a p n)) {}"
    using assms(1) by (simp add: load_logged_files_def log_action_def old_def)
  ultimately show "load_logged_files (log_action st ts lp a p n) (Some lp)
           = insert p (load_logged_files st (Some lp))"
    by (simp only: o)
  show "log_complete (log_action st ts lp a p n) lp"
    by (simp add: log_complete_def log_action_def complete_log_line)
qed

text \<open>A path with the separator in it is not: the log gives back its part before the bar.\<close>

lemma barred_path_misread:
  "entry_path (log_line ''2026-01-01T00:00:00'' ''CREATE'' ''a|b.txt'' 1) = Some ''a''"
  by code_simp

section \<open>Properties of a worker\<close>

lemma should_exit_mono: "should_exit sig i \<Longrightarrow> i \<le> j \<Longrightarrow> should_exit sig j"
  by (auto simp: should_exit_def split: option.splits)

lemma read_words_uncancelled:
  "\<not> should_exit sig (j + length ls) \<Longrightarrow> read_words sig j ls ws = (False, ws \<union> words_of_lines ls)"
proof (induction ls arbitrary: j ws)
  case Nil
  then show ?case by (simp add: words_of_lines_def)
next
  case (Cons l ls)
  from Cons.prems have n: "\<not> should_exit sig j" using should_exit_mono[of sig j "j + length (l # ls)"] by auto
  from Cons.prems have "\<not> should_exit sig (Suc j + length ls)" by simp
  from Cons.IH[OF this] n show ?case by (auto simp: words_of_lines_def Let_def)
qed

lemma read_words_broke: "fst (read_words sig j ls ws) \<Longrightarrow> should_exit sig (j + length ls)"
proof (induction ls arbitrary: j ws)
  case Nil
  then show ?case by simp
next
  case (Cons l ls)
  show ?case
  proof (cases "should_exit sig j")
    case True
    then show ?thesis by (rule should_exit_mono) simp
  next
    case False
    with Cons.prems have "fst (read_words sig (Suc j) ls (if strip l \<noteq> [] then insert (strip l) ws else ws))"
      by (simp add: Let_def)
    from Cons.IH[OF this] show ?thesis by simp
  qed
qed

lemma open_text_cases:
  "open_text st p flt =
     (if \<not> isfile st p \<or> flt = OpenFails then None
      else Some (case flt of ReadFails k \<Rightarrow> take k (source_lines st p) | _ \<Rightarrow> source_lines st p,
                 flt = NoFault))"
  by (auto simp: open_text_def isfile_def source_lines_def split: option.splits node.splits read_fault.splits)

lemma worker_frame:
  "nodes (snd (collect_words_from_file we st p lp a)) = nodes st
   \<and> master_txt (snd (collect_words_from_file we st p lp a)) = master_txt st
   \<and> master_gz (snd (collect_words_from_file we st p lp a)) = master_gz st
   \<and> master_bz2 (snd (collect_words_from_file we st p lp a)) = master_bz2 st
   \<and> resume_file (snd (collect_words_from_file we st p lp a)) = resume_file st"
  by (auto simp: collect_words_from_file_def print_def log_action_def split: option.splits prod.splits)

lemma worker_uncancelled:
  assumes "sigint_at we = None"
  shows "fst (collect_words_from_file we st p lp a) = contribution we st p"
    and "console (snd (collect_words_from_file we st p lp a)) =
           console st @ (if unreadable we st p then [ErrorReading p] else [])"
proof -
  have r: "read_words None 0 ls {} = (False, words_of_lines ls)" for ls
    using read_words_uncancelled[of None 0 ls "{}"] by (simp add: should_exit_def)
  show "fst (collect_words_from_file we st p lp a) = contribution we st p"
    using assms
    by (auto simp: collect_words_from_file_def open_text_cases contribution_def r source_words_def
        split: read_fault.splits)
  show "console (snd (collect_words_from_file we st p lp a)) =
           console st @ (if unreadable we st p then [ErrorReading p] else [])"
    using assms
    by (auto simp: collect_words_from_file_def open_text_cases unreadable_def r print_def log_action_def
        split: read_fault.splits)
qed

lemma worker_logs_unfinished:
  assumes "\<not> finished we st p"
  shows "logs (snd (collect_words_from_file we st p log_path action)) = logs st"
proof (cases "unreadable we st p")
  case True
  have b: "should_exit sig (length ls)" if "read_words sig 0 ls {} = (True, ws)" for sig ls ws
    using read_words_broke[of sig 0 ls "{}"] that by simp
  from True show ?thesis
    by (auto simp: collect_words_from_file_def open_text_cases unreadable_def print_def log_action_def
        split: read_fault.splits prod.splits dest: b)
next
  case False
  with assms have "should_exit (sigint_at we) (length (source_lines st p))"
    by (simp add: finished_def)
  with False show ?thesis
    by (auto simp: collect_words_from_file_def open_text_cases unreadable_def print_def
        split: read_fault.splits prod.splits)
qed

lemma worker_logs_finished:
  assumes "finished we st p" "lp \<noteq> []" "a \<noteq> []"
  shows "snd (collect_words_from_file we st p (Some lp) (Some a))
           = log_action st (now we) lp a p (card (source_words st p))"
proof -
  from assms(1) have u: "\<not> unreadable we st p"
    and nc: "\<not> should_exit (sigint_at we) (length (source_lines st p))"
    by (simp_all add: finished_def)
  from nc have "read_words (sigint_at we) 0 (source_lines st p) {} = (False, source_words st p)"
    using read_words_uncancelled[of "sigint_at we" 0 "source_lines st p" "{}"]
    by (simp add: source_words_def)
  with u nc assms(2,3) show ?thesis
    by (auto simp: collect_words_from_file_def open_text_cases unreadable_def truthy_def)
qed

lemma finished_cong: "nodes st' = nodes st \<Longrightarrow> finished we st' p = finished we st p"
  by (simp add: finished_def unreadable_def isfile_def source_lines_def)

lemma worker_logged:
  assumes "lp \<noteq> []" "a \<noteq> []" "plain_field a" "plain_field (now we)" "plain_path p"
    and "log_complete st lp"
  shows "load_logged_files (snd (collect_words_from_file we st p (Some lp) (Some a))) (Some lp)
           = (if finished we st p then insert p (load_logged_files st (Some lp))
              else load_logged_files st (Some lp))"
    and "log_complete (snd (collect_words_from_file we st p (Some lp) (Some a))) lp"
proof -
  show "load_logged_files (snd (collect_words_from_file we st p (Some lp) (Some a))) (Some lp)
           = (if finished we st p then insert p (load_logged_files st (Some lp))
              else load_logged_files st (Some lp))"
  proof (cases "finished we st p")
    case True
    from worker_logs_finished[OF True assms(1,2)] True
      log_action_logged(1)[OF assms(1,6,4,3,5)]
    show ?thesis by simp
  next
    case False
    from load_logged_files_cong[OF worker_logs_unfinished[OF False]] False
    show ?thesis by simp
  qed
  show "log_complete (snd (collect_words_from_file we st p (Some lp) (Some a))) lp"
  proof (cases "finished we st p")
    case True
    from worker_logs_finished[OF True assms(1,2)] log_action_logged(2)[OF assms(1,6,4,3,5)]
    show ?thesis by simp
  next
    case False
    from worker_logs_unfinished[OF False, of "Some lp" "Some a"] assms(6)
    show ?thesis by (simp add: log_complete_def)
  qed
qed




lemma contribution_cong: "nodes st' = nodes st \<Longrightarrow> contribution we st' p = contribution we st p"
  by (simp add: contribution_def isfile_def source_words_def source_lines_def split: read_fault.splits)

lemma unreadable_cong: "nodes st' = nodes st \<Longrightarrow> unreadable we st' p = unreadable we st p"
  by (simp add: unreadable_def isfile_def)

section \<open>Properties of the coordinator\<close>

lemma isfile_print [simp]: "isfile (print m st) = isfile st"
  by (simp add: isfile_def print_def fun_eq_iff)

lemma isdir_print [simp]: "isdir (print m st) = isdir st"
  by (simp add: isdir_def print_def fun_eq_iff)

lemma glob_txt_print [simp]: "glob_txt (print m st) = glob_txt st"
  by (simp add: glob_txt_def print_def fun_eq_iff)



lemma add_files_frame:
  "nodes (snd (add_files fs acc st)) = nodes st \<and> logs (snd (add_files fs acc st)) = logs st
   \<and> resume_file (snd (add_files fs acc st)) = resume_file st
   \<and> master_txt (snd (add_files fs acc st)) = master_txt st
   \<and> master_gz (snd (add_files fs acc st)) = master_gz st
   \<and> master_bz2 (snd (add_files fs acc st)) = master_bz2 st"
  by (induction fs arbitrary: acc st) (auto simp: print_def)

lemma add_folders_frame:
  "nodes (snd (add_folders ds acc st)) = nodes st \<and> logs (snd (add_folders ds acc st)) = logs st
   \<and> resume_file (snd (add_folders ds acc st)) = resume_file st
   \<and> master_txt (snd (add_folders ds acc st)) = master_txt st
   \<and> master_gz (snd (add_folders ds acc st)) = master_gz st
   \<and> master_bz2 (snd (add_folders ds acc st)) = master_bz2 st"
  by (induction ds arbitrary: acc st) (auto simp: print_def)

lemma isfile_cong: "nodes st' = nodes st \<Longrightarrow> isfile st' p = isfile st p"
  by (simp add: isfile_def)




lemma enumerate_sources_frame:
  "nodes (snd (enumerate_sources st files folders)) = nodes st
   \<and> logs (snd (enumerate_sources st files folders)) = logs st
   \<and> resume_file (snd (enumerate_sources st files folders)) = resume_file st
   \<and> master_txt (snd (enumerate_sources st files folders)) = master_txt st
   \<and> master_gz (snd (enumerate_sources st files folders)) = master_gz st
   \<and> master_bz2 (snd (enumerate_sources st files folders)) = master_bz2 st"
proof -
  obtain all_files st1 where a: "add_files files [] st = (all_files, st1)" by (cases "add_files files [] st")
  show ?thesis
    using add_files_frame[of files "[]" st] add_folders_frame[of folders all_files st1] a
    by (simp add: enumerate_sources_def)
qed

text \<open>The run dispatches \<open>dispatch_sequence\<close>, unless the enumeration found nothing.\<close>

lemma collect_words_from_inputs_dispatch:
  "collect_words_from_inputs env st files folders threads log_path action skip_logged resume =
     (if fst (enumerate_sources st files folders) = []
      then (Returned {}, snd (enumerate_sources st files folders))
      else ingest env (snd (enumerate_sources st files folders))
             (dispatch_sequence st files folders log_path skip_logged resume) threads log_path action)"
  by (simp add: collect_words_from_inputs_def dispatch_sequence_def split: prod.splits)

lemma dispatch_sequence_eq:
  "dispatch_sequence st files folders log_path skip_logged resume =
     (if fst (enumerate_sources st files folders) = [] then []
      else resume_files st resume (skip_logged_files st log_path skip_logged (fst (enumerate_sources st files folders))))"
proof -
  obtain e st1 where a: "enumerate_sources st files folders = (e, st1)" by (cases "enumerate_sources st files folders")
  from enumerate_sources_frame[of st files folders] a
  have l: "logs st1 = logs st" and r: "resume_file st1 = resume_file st" by simp_all
  have "load_logged_files st1 log_path = load_logged_files st log_path"
    using l by (rule load_logged_files_cong)
  then have "skip_logged_files st1 log_path skip_logged e = skip_logged_files st log_path skip_logged e"
    by (simp add: skip_logged_files_def)
  moreover have "resume_files st1 resume xs = resume_files st resume xs" for xs
    using r by (simp add: resume_files_def load_resume_state_def)
  ultimately show ?thesis by (simp add: dispatch_sequence_def a)
qed

lemma run_workers_frame:
  "nodes (snd (run_workers env i fs lp a st)) = nodes st
   \<and> master_txt (snd (run_workers env i fs lp a st)) = master_txt st
   \<and> master_gz (snd (run_workers env i fs lp a st)) = master_gz st
   \<and> master_bz2 (snd (run_workers env i fs lp a st)) = master_bz2 st
   \<and> resume_file (snd (run_workers env i fs lp a st)) = resume_file st"
proof (induction fs arbitrary: i st)
  case Nil
  then show ?case by simp
next
  case (Cons f fs)
  obtain w st1 where w: "collect_words_from_file (worker env i) st f lp a = (w, st1)"
    by (cases "collect_words_from_file (worker env i) st f lp a")
  obtain rs st2 where r: "run_workers env (Suc i) fs lp a st1 = (rs, st2)"
    by (cases "run_workers env (Suc i) fs lp a st1")
  from worker_frame[of "worker env i" st f lp a] w Cons.IH[of "Suc i" st1] r
  show ?case by simp
qed

lemma run_workers_uncancelled:
  assumes "\<forall>j<length fs. sigint_at (worker env (i + j)) = None"
  shows "fst (run_workers env i fs lp a st) =
           map (\<lambda>j. contribution (worker env (i + j)) st (fs ! j)) [0..<length fs]
         \<and> console (snd (run_workers env i fs lp a st)) =
           console st @ concat (map (\<lambda>j. if unreadable (worker env (i + j)) st (fs ! j)
                                           then [ErrorReading (fs ! j)] else []) [0..<length fs])"
  using assms
proof (induction fs arbitrary: i st)
  case Nil
  then show ?case by simp
next
  case (Cons f fs)
  obtain w st1 where w: "collect_words_from_file (worker env i) st f lp a = (w, st1)"
    by (cases "collect_words_from_file (worker env i) st f lp a")
  obtain rs st2 where r: "run_workers env (Suc i) fs lp a st1 = (rs, st2)"
    by (cases "run_workers env (Suc i) fs lp a st1")
  from Cons.prems have s0: "sigint_at (worker env i) = None" by auto
  from Cons.prems have s: "\<forall>j<length fs. sigint_at (worker env (Suc i + j)) = None" by auto
  have n: "nodes st1 = nodes st"
    using worker_frame[of "worker env i" st f lp a] w by simp
  have w1: "w = contribution (worker env i) st f"
    and c1: "console st1 = console st @ (if unreadable (worker env i) st f then [ErrorReading f] else [])"
    using worker_uncancelled[OF s0, of st f lp a] w by simp_all
  from Cons.IH[OF s, of st1] r
  have rs: "rs = map (\<lambda>j. contribution (worker env (Suc i + j)) st1 (fs ! j)) [0..<length fs]"
    and c2: "console st2 = console st1 @ concat (map (\<lambda>j. if unreadable (worker env (Suc i + j)) st1 (fs ! j)
                                           then [ErrorReading (fs ! j)] else []) [0..<length fs])"
    by simp_all
  show ?case
    using w r w1 c1
    by (simp add: rs c2 map_upt_Suc contribution_cong[OF n] unreadable_cong[OF n] del: upt_Suc cong: if_cong)
qed

lemma merge_results_uncancelled: "merge_results None j rs ws = ws \<union> \<Union> (set rs)"
  by (induction rs arbitrary: j ws) (auto simp: should_exit_def)

lemma interrupted_iff:
  "interrupted env n \<longleftrightarrow>
     (\<exists>i<n. sigint_at (worker env i) \<noteq> None) \<or> merge_sigint_at env \<noteq> None \<or> late_sigint env"
  by (auto simp: interrupted_def list_ex_iff)

lemma ingest_uninterrupted:
  assumes "0 < threads" "\<not> interrupted env (length fs)"
  shows "fst (ingest env st fs threads lp a) =
           Returned (\<Union>j<length fs. contribution (worker env j) st (fs ! j))"
    and "console (snd (ingest env st fs threads lp a)) =
           console st @ concat (map (\<lambda>j. if unreadable (worker env j) st (fs ! j)
                                           then [ErrorReading (fs ! j)] else []) [0..<length fs])"
    and "master_txt (snd (ingest env st fs threads lp a)) = master_txt st"
    and "master_gz (snd (ingest env st fs threads lp a)) = master_gz st"
    and "master_bz2 (snd (ingest env st fs threads lp a)) = master_bz2 st"
proof -
  from assms(2) have s: "\<forall>j<length fs. sigint_at (worker env (0 + j)) = None"
    and m: "merge_sigint_at env = None"
    by (auto simp: interrupted_iff)
  obtain rs st2 where r: "run_workers env 0 fs lp a st = (rs, st2)"
    by (cases "run_workers env 0 fs lp a st")
  from run_workers_uncancelled[OF s, of lp a st] r
  have rs: "rs = map (\<lambda>j. contribution (worker env j) st (fs ! j)) [0..<length fs]"
    and c: "console st2 = console st @ concat (map (\<lambda>j. if unreadable (worker env j) st (fs ! j)
                                           then [ErrorReading (fs ! j)] else []) [0..<length fs])"
    by simp_all
  have i: "ingest env st fs threads lp a =
      (Returned (merge_results None 0 rs {}), st2\<lparr>resume_file := None\<rparr>)"
    using assms r m by (simp add: ingest_def)
  have u: "\<Union> (set rs) = (\<Union>j<length fs. contribution (worker env j) st (fs ! j))"
    unfolding rs by auto
  show "fst (ingest env st fs threads lp a) =
           Returned (\<Union>j<length fs. contribution (worker env j) st (fs ! j))"
    by (simp add: i merge_results_uncancelled u)
  show "console (snd (ingest env st fs threads lp a)) =
           console st @ concat (map (\<lambda>j. if unreadable (worker env j) st (fs ! j)
                                           then [ErrorReading (fs ! j)] else []) [0..<length fs])"
    by (simp add: i c)
  from run_workers_frame[of env 0 fs lp a st] r
  show "master_txt (snd (ingest env st fs threads lp a)) = master_txt st"
    and "master_gz (snd (ingest env st fs threads lp a)) = master_gz st"
    and "master_bz2 (snd (ingest env st fs threads lp a)) = master_bz2 st"
    by (simp_all add: i)
qed

lemma ingest_interrupted:
  assumes "0 < threads" "interrupted env (length fs)"
  shows "\<exists>st'. ingest env st fs threads lp a = (Exited, st')
          \<and> resume_file st' = Some (filter (\<lambda>f. f \<notin> load_logged_files st' lp) fs)"
proof -
  obtain rs st2 where r: "run_workers env 0 fs lp a st = (rs, st2)"
    by (cases "run_workers env 0 fs lp a st")
  have "load_logged_files (save_resume_state st2 xs) lp = load_logged_files st2 lp" for xs
    by (rule load_logged_files_cong) (simp add: save_resume_state_def)
  then show ?thesis
    using assms r by (simp add: ingest_def save_resume_state_def)
qed

lemma run_workers_logged:
  assumes "lp \<noteq> []" "a \<noteq> []" "plain_field a"
    and "\<forall>f\<in>set fs. plain_path f"
    and "\<forall>j<length fs. plain_field (now (worker env (i + j)))"
    and "log_complete st lp"
  shows "load_logged_files (snd (run_workers env i fs (Some lp) (Some a) st)) (Some lp)
           = load_logged_files st (Some lp)
             \<union> {fs ! j | j. j < length fs \<and> finished (worker env (i + j)) st (fs ! j)}"
  using assms(4,5,6)
proof (induction fs arbitrary: i st)
  case Nil
  then show ?case by simp
next
  case (Cons f fs)
  obtain w st1 where w: "collect_words_from_file (worker env i) st f (Some lp) (Some a) = (w, st1)"
    by (cases "collect_words_from_file (worker env i) st f (Some lp) (Some a)")
  obtain rs st2 where r: "run_workers env (Suc i) fs (Some lp) (Some a) st1 = (rs, st2)"
    by (cases "run_workers env (Suc i) fs (Some lp) (Some a) st1")
  from Cons.prems have pf: "plain_path f" and t0: "plain_field (now (worker env i))" by auto
  from Cons.prems have ps: "\<forall>f\<in>set fs. plain_path f"
    and ts: "\<forall>j<length fs. plain_field (now (worker env (Suc i + j)))" by auto
  have n: "nodes st1 = nodes st"
    using worker_frame[of "worker env i" st f "Some lp" "Some a"] w by simp
  from worker_logged[OF assms(1,2,3) t0 pf Cons.prems(3)] w
  have l1: "load_logged_files st1 (Some lp)
             = (if finished (worker env i) st f then insert f (load_logged_files st (Some lp))
                else load_logged_files st (Some lp))"
    and c1: "log_complete st1 lp" by simp_all
  from Cons.IH[OF ps ts c1] r
  have l2: "load_logged_files st2 (Some lp)
             = load_logged_files st1 (Some lp)
               \<union> {fs ! j | j. j < length fs \<and> finished (worker env (Suc i + j)) st (fs ! j)}"
    by (simp add: finished_cong[OF n])
  have split: "{(f # fs) ! j | j. j < length (f # fs) \<and> finished (worker env (i + j)) st ((f # fs) ! j)}
      = (if finished (worker env i) st f then {f} else {})
        \<union> {fs ! j | j. j < length fs \<and> finished (worker env (Suc i + j)) st (fs ! j)}"
    (is "?L = ?R")
  proof (intro set_eqI iffI)
    fix x assume "x \<in> ?L"
    then obtain j where j: "j < length (f # fs)" "finished (worker env (i + j)) st ((f # fs) ! j)"
      "x = (f # fs) ! j" by auto
    show "x \<in> ?R"
    proof (cases j)
      case 0
      with j show ?thesis by auto
    next
      case (Suc k)
      with j show ?thesis by auto
    qed
  next
    fix x assume "x \<in> ?R"
    then consider "finished (worker env i) st f" "x = f"
      | k where "k < length fs" "finished (worker env (Suc i + k)) st (fs ! k)" "x = fs ! k"
      by (auto split: if_splits)
    then show "x \<in> ?L"
    proof cases
      case 1
      then have "0 < length (f # fs) \<and> finished (worker env (i + 0)) st ((f # fs) ! 0) \<and> x = (f # fs) ! 0"
        by simp
      then show ?thesis by blast
    next
      case 2
      then have "Suc k < length (f # fs) \<and> finished (worker env (i + Suc k)) st ((f # fs) ! Suc k)
           \<and> x = (f # fs) ! Suc k" by simp
      then show ?thesis by blast
    qed
  qed
  show ?case
    unfolding split using w r l1 l2 by auto
qed

lemma set_finished_sources:
  "set (finished_sources env st fs)
     = {fs ! j | j. j < length fs \<and> finished (worker env j) st (fs ! j)}"
  by (auto simp: finished_sources_def)

lemma checkpoint_unfinished_set:
  assumes "0 < threads" and "interrupted env (length fs)"
    and "lp \<noteq> []" and "a \<noteq> []" and "plain_field a"
    and "\<forall>f\<in>set fs. plain_path f"
    and "\<forall>j<length fs. plain_field (now (worker env j))"
    and "log_complete st lp"
  shows "fst (ingest env st fs threads (Some lp) (Some a)) = Exited
       \<and> resume_file (snd (ingest env st fs threads (Some lp) (Some a)))
         = Some (filter (\<lambda>f. f \<notin> load_logged_files st (Some lp)
                        \<and> f \<notin> {fs ! j | j. j < length fs \<and> finished (worker env j) st (fs ! j)}) fs)"
proof -
  obtain rs st2 where r: "run_workers env 0 fs (Some lp) (Some a) st = (rs, st2)"
    by (cases "run_workers env 0 fs (Some lp) (Some a) st")
  from assms(7) have ts: "\<forall>j<length fs. plain_field (now (worker env (0 + j)))" by simp
  from run_workers_logged[OF assms(3,4,5,6) ts assms(8)] r
  have l: "load_logged_files st2 (Some lp)
           = load_logged_files st (Some lp)
             \<union> {fs ! j | j. j < length fs \<and> finished (worker env j) st (fs ! j)}"
    by simp
  have "load_logged_files (save_resume_state st2 xs) (Some lp) = load_logged_files st2 (Some lp)" for xs
    by (rule load_logged_files_cong) (simp add: save_resume_state_def)
  then show ?thesis
    using assms(1,2) r by (simp add: ingest_def save_resume_state_def l)
qed

section \<open>The claims\<close>

subsection \<open>C1: union correctness\<close>



subsection \<open>C2: the checkpoint of an interrupted run\<close>

text \<open>
  C2. When the flag is set at the test that follows the pool (some thread saw the signal, or it
  came late) and the enumeration found a source, the run exits and the checkpoint it leaves
  is the dispatch sequence without the paths that \<^verbatim>\<open>load_logged_files\<close> then reads from
  the log, in dispatch order. In the scenario of sources A, B, C with only A logged the
  checkpoint is B, C.
\<close>

theorem interruption_checkpoint:
  assumes "0 < threads"
    and "fst (enumerate_sources st files folders) \<noteq> []"
    and "interrupted env (length (dispatch_sequence st files folders log_path skip_logged resume))"
  shows "fst (collect_words_from_inputs env st files folders threads log_path action skip_logged resume)
           = Exited
         \<and> resume_file (snd (collect_words_from_inputs env st files folders threads log_path action
                               skip_logged resume))
           = Some (filter (\<lambda>f. f \<notin> load_logged_files
                                 (snd (collect_words_from_inputs env st files folders threads
                                         log_path action skip_logged resume)) log_path)
                     (dispatch_sequence st files folders log_path skip_logged resume))"
  using ingest_interrupted[OF assms(1,3), of "snd (enumerate_sources st files folders)" log_path action]
    assms(2)
  by (auto simp: collect_words_from_inputs_dispatch)

text \<open>
  Sources \<^verbatim>\<open>a.txt\<close>, \<^verbatim>\<open>b.txt\<close>, \<^verbatim>\<open>c.txt\<close> with logging: the first worker completes and
  logs, the signal stops the other two.
\<close>

theorem interruption_checkpoint_witness:
  "fst (collect_words_from_inputs sigint_after_first example_store [''a.txt'', ''b.txt'', ''c.txt''] []
          2 (Some ''listman.log'') (Some ''CREATE'') False False) = Exited
   \<and> load_logged_files
        (snd (collect_words_from_inputs sigint_after_first example_store
                [''a.txt'', ''b.txt'', ''c.txt''] [] 2 (Some ''listman.log'') (Some ''CREATE'')
                False False))
        (Some ''listman.log'') = {''a.txt''}
   \<and> resume_file
        (snd (collect_words_from_inputs sigint_after_first example_store
                [''a.txt'', ''b.txt'', ''c.txt''] [] 2 (Some ''listman.log'') (Some ''CREATE'')
                False False))
       = Some [''b.txt'', ''c.txt'']"
proof -
  have d: "dispatch_sequence example_store [''a.txt'', ''b.txt'', ''c.txt''] []
             (Some ''listman.log'') False False = [''a.txt'', ''b.txt'', ''c.txt'']"
    by code_simp
  have l: "load_logged_files
        (snd (collect_words_from_inputs sigint_after_first example_store
                [''a.txt'', ''b.txt'', ''c.txt''] [] 2 (Some ''listman.log'') (Some ''CREATE'')
                False False))
        (Some ''listman.log'') = {''a.txt''}"
    by code_simp
  have h1: "0 < (2::nat)" by simp
  have h2: "fst (enumerate_sources example_store [''a.txt'', ''b.txt'', ''c.txt''] []) \<noteq> []"
    by code_simp
  have h3: "interrupted sigint_after_first
              (length (dispatch_sequence example_store [''a.txt'', ''b.txt'', ''c.txt''] []
                         (Some ''listman.log'') False False))"
    unfolding d by code_simp
  from interruption_checkpoint[OF h1 h2 h3, where action = "Some ''CREATE''"]
  show ?thesis by (simp add: d l)
qed

text \<open>
  What the log holds at that moment. For plain paths and timestamps and a log of complete
  lines, the paths read from the log after the pool are those read from it before the run and
  the sources whose workers finished, so the checkpoint is the dispatch sequence without both:
  the sources not logged before whose worker failed or was cancelled.
\<close>

theorem checkpoint_unfinished:
  assumes "0 < threads" and "interrupted env (length fs)"
    and "lp \<noteq> []" and "a \<noteq> []" and "plain_field a"
    and "\<forall>f\<in>set fs. plain_path f"
    and "\<forall>j<length fs. plain_field (now (worker env j))"
    and "log_complete st lp"
  shows "fst (ingest env st fs threads (Some lp) (Some a)) = Exited
       \<and> resume_file (snd (ingest env st fs threads (Some lp) (Some a)))
         = Some (filter (\<lambda>f. f \<notin> load_logged_files st (Some lp)
                             \<and> f \<notin> set (finished_sources env st fs)) fs)"
  using checkpoint_unfinished_set[OF assms] by (simp add: set_finished_sources)

theorem checkpoint_unfinished_witness:
  "finished_sources sigint_after_first example_store [''a.txt'', ''b.txt'', ''c.txt'']
     = [''a.txt'']
   \<and> resume_file (snd (ingest sigint_after_first example_store [''a.txt'', ''b.txt'', ''c.txt''] 2
                         (Some ''listman.log'') (Some ''CREATE'')))
       = Some [''b.txt'', ''c.txt'']"
proof -
  have h1: "0 < (2::nat)" by simp
  have h2: "interrupted sigint_after_first (length [''a.txt'', ''b.txt'', ''c.txt''])" by code_simp
  have h3: "''listman.log'' \<noteq> []" and h4: "''CREATE'' \<noteq> []" by simp_all
  have h5: "plain_field ''CREATE''" by code_simp
  have h6: "\<forall>f\<in>set [''a.txt'', ''b.txt'', ''c.txt'']. plain_path f" by code_simp
  have h7: "\<forall>j<length [''a.txt'', ''b.txt'', ''c.txt'']. plain_field (now (worker sigint_after_first j))"
    by (simp add: sigint_after_first_def quiet_worker_def plain_field_def LF_def CR_def)
  have h8: "log_complete example_store ''listman.log''" by code_simp
  have f: "finished_sources sigint_after_first example_store [''a.txt'', ''b.txt'', ''c.txt'']
     = [''a.txt'']" by code_simp
  have g: "filter (\<lambda>f. f \<notin> load_logged_files example_store (Some ''listman.log'')
                             \<and> f \<notin> set (finished_sources sigint_after_first example_store
                                             [''a.txt'', ''b.txt'', ''c.txt'']))
             [''a.txt'', ''b.txt'', ''c.txt''] = [''b.txt'', ''c.txt'']" by code_simp
  from checkpoint_unfinished[OF h1 h2 h3 h4 h5 h6 h7 h8] f g
  show ?thesis by simp
qed

subsection \<open>C3: saving and loading the master\<close>

text \<open>
  C3 fails as stated. \<^verbatim>\<open>load\<close> reads the first representation it finds, the uncompressed
  one first, and \<^verbatim>\<open>save_master\<close> writes one representation and removes no other: after
  saving with gzip beside an older uncompressed master, the older words are loaded. And a
  word with a carriage return inside is read back as two words.
\<close>

theorem stale_master_counterexample:
  "load_master (save_master (example_store\<lparr>master_txt := Some (''a'' @ [LF])\<rparr>) {''b''} (Some ''gzip''))
     = {''a''}
   \<and> load_master (save_master (example_store\<lparr>master_txt := Some (''a'' @ [LF])\<rparr>) {''b''}
                    (Some ''gzip'')) \<noteq> {''b''}
   \<and> load_master (save_master example_store {[CHR ''a'', CR, CHR ''b'']} None) = {''a'', ''b''}
   \<and> load_master (save_master example_store {[CHR ''a'', CR, CHR ''b'']} None)
       \<noteq> {[CHR ''a'', CR, CHR ''b'']}"
  by code_simp

text \<open>
  C3, amended. For a finite set of plain words (not empty, no line feed or carriage return
  inside, no whitespace at either end), saving and then loading returns the set, when no
  representation that \<^verbatim>\<open>load\<close> prefers to the written one exists before the save: none for
  the uncompressed mode, no uncompressed master for gzip, neither an uncompressed nor a gzip
  master for bz2.
\<close>

theorem save_load_roundtrip:
  assumes "finite words" and "\<forall>w\<in>words. plain_word w"
    and "compress = Some ''gzip'' \<longrightarrow> master_txt st = None"
    and "compress = Some ''bz2'' \<longrightarrow> master_txt st = None \<and> master_gz st = None"
  shows "load_master (save_master st words compress) = words"
  using assms(3,4) words_of_text_written[OF assms(1,2)]
  by (auto simp: load_master_def save_master_def)

theorem save_load_roundtrip_witness:
  "load_master (save_master example_store {''bar'', ''baz'', ''foo''} None) = {''bar'', ''baz'', ''foo''}
   \<and> load_master (save_master example_store {''bar'', ''baz'', ''foo''} (Some ''gzip''))
       = {''bar'', ''baz'', ''foo''}
   \<and> load_master (save_master example_store {''bar'', ''baz'', ''foo''} (Some ''bz2''))
       = {''bar'', ''baz'', ''foo''}"
proof -
  have h1: "finite {''bar'', ''baz'', ''foo''}" by simp
  have h2: "\<forall>w\<in>{''bar'', ''baz'', ''foo''}. plain_word w" by code_simp
  have t: "master_txt example_store = None" and g: "master_gz example_store = None"
    by (simp_all add: example_store_def)
  from save_load_roundtrip[OF h1 h2, of None example_store]
    save_load_roundtrip[OF h1 h2, of "Some ''gzip''" example_store]
    save_load_roundtrip[OF h1 h2, of "Some ''bz2''" example_store] t g
  show ?thesis by simp
qed

subsection \<open>C4: resuming from a checkpoint\<close>

text \<open>
  C4 fails as stated in both corner cases it names. Line 166 returns before the checkpoint is
  looked at when the fresh enumeration is empty, so nothing is dispatched although the
  checkpoint names \<^verbatim>\<open>b.txt\<close>; and line 175 tests the truth value of the pending list, so an
  empty checkpoint leaves the fresh enumeration in place.
\<close>

theorem resume_ignored_counterexample:
  "load_resume_state (example_store\<lparr>resume_file := Some [''b.txt'']\<rparr>) = Some [''b.txt'']
   \<and> dispatch_sequence (example_store\<lparr>resume_file := Some [''b.txt'']\<rparr>)
        [''missing.txt''] [] None False True = []
   \<and> dispatch_sequence (example_store\<lparr>resume_file := Some [''b.txt'']\<rparr>)
        [''missing.txt''] [] None False True \<noteq> [''b.txt'']
   \<and> fst (collect_words_from_inputs quiet (example_store\<lparr>resume_file := Some [''b.txt'']\<rparr>)
            [''missing.txt''] [] 2 None (Some ''CREATE'') False True) = Returned {}
   \<and> load_resume_state (example_store\<lparr>resume_file := Some []\<rparr>) = Some []
   \<and> dispatch_sequence (example_store\<lparr>resume_file := Some []\<rparr>)
        [''a.txt''] [] None False True = [''a.txt'']
   \<and> dispatch_sequence (example_store\<lparr>resume_file := Some []\<rparr>)
        [''a.txt''] [] None False True \<noteq> []"
  by code_simp

text \<open>
  C4, amended. When resume is requested and the checkpoint exists, the run ingests exactly the
  checkpoint's pending sequence, in place of the enumerated one, if the pending list and the
  fresh enumeration are both non-empty. If the fresh enumeration is empty it returns the empty
  set and dispatches nothing; if it is not and the pending list is empty, it ingests the fresh
  enumeration (after the skip-logged filter).
\<close>

theorem resume_replaces_sequence:
  assumes "resume" and "resume_file st = Some pending"
  shows "dispatch_sequence st files folders log_path skip_logged resume
           = (if fst (enumerate_sources st files folders) = [] then []
              else if pending = []
                   then skip_logged_files st log_path skip_logged
                          (fst (enumerate_sources st files folders))
                   else pending)
         \<and> collect_words_from_inputs env st files folders threads log_path action skip_logged resume
           = (if fst (enumerate_sources st files folders) = []
              then (Returned {}, snd (enumerate_sources st files folders))
              else ingest env (snd (enumerate_sources st files folders))
                     (dispatch_sequence st files folders log_path skip_logged resume)
                     threads log_path action)"
  using assms
  by (simp add: collect_words_from_inputs_dispatch dispatch_sequence_eq resume_files_def
      load_resume_state_def)

theorem resume_replaces_sequence_witness:
  "dispatch_sequence (example_store\<lparr>resume_file := Some [''b.txt'', ''c.txt'']\<rparr>)
     [''a.txt''] [] None False True = [''b.txt'', ''c.txt'']
   \<and> fst (collect_words_from_inputs quiet (example_store\<lparr>resume_file := Some [''b.txt'', ''c.txt'']\<rparr>)
            [''a.txt''] [] 2 None (Some ''CREATE'') False True) = Returned {''baz'', ''foo'', ''qux''}"
proof -
  have h2: "resume_file (example_store\<lparr>resume_file := Some [''b.txt'', ''c.txt'']\<rparr>)
              = Some [''b.txt'', ''c.txt'']" by simp
  have h4: "fst (enumerate_sources (example_store\<lparr>resume_file := Some [''b.txt'', ''c.txt'']\<rparr>)
              [''a.txt''] []) \<noteq> []" by code_simp
  have e: "fst (ingest quiet (snd (enumerate_sources (example_store\<lparr>resume_file := Some [''b.txt'', ''c.txt'']\<rparr>)
              [''a.txt''] [])) [''b.txt'', ''c.txt''] 2 None (Some ''CREATE'')) = Returned {''baz'', ''foo'', ''qux''}"
    by code_simp
  from resume_replaces_sequence[OF TrueI h2, where env = quiet and threads = 2
      and files = "[''a.txt'']" and folders = "[]"
      and log_path = None and action = "Some ''CREATE''" and skip_logged = False] h4
  show ?thesis by (simp add: e)
qed

subsection \<open>C5: the ledger entry of a worker\<close>

text \<open>
  C5 fails as stated: line 142 does not look at the number of words. A source without words,
  read without failure and without cancellation, gets an entry counting 0 words.
\<close>

theorem empty_source_logged_counterexample:
  "fst (collect_words_from_file quiet_worker example_store ''empty.txt''
          (Some ''listman.log'') (Some ''CREATE'')) = {}
   \<and> logs (snd (collect_words_from_file quiet_worker example_store ''empty.txt''
                   (Some ''listman.log'') (Some ''CREATE''))) ''listman.log''
       = Some (''2026-01-01T00:00:00 | CREATE | empty.txt | 0 words'' @ [LF])
   \<and> logs (snd (collect_words_from_file quiet_worker example_store ''empty.txt''
                   (Some ''listman.log'') (Some ''CREATE''))) ''listman.log''
       \<noteq> logs example_store ''listman.log''"
  by code_simp

text \<open>
  C5, amended. With logging enabled (a non-empty log path and action), the worker appends one
  entry for its source, counting the distinct words of the source, if and only if the source
  was read to its end without a failure and the worker did not see the flag set up to its test
  before logging; otherwise the log is unchanged. The count may be 0.
\<close>

theorem worker_ledger_entry:
  assumes "log_path = Some lp" "lp \<noteq> []" "action = Some a" "a \<noteq> []"
  shows "logs (snd (collect_words_from_file we st p log_path action)) =
     (if \<not> unreadable we st p \<and> \<not> should_exit (sigint_at we) (length (source_lines st p))
      then (logs st)(lp \<mapsto> (case logs st lp of None \<Rightarrow> [] | Some t \<Rightarrow> t)
                              @ log_line (now we) a p (card (source_words st p)))
      else logs st)"
proof (cases "finished we st p")
  case True
  from worker_logs_finished[OF True assms(2,4)] True show ?thesis
    by (simp add: assms(1,3) finished_def log_action_def)
next
  case False
  from worker_logs_unfinished[OF False] False show ?thesis
    by (auto simp: finished_def)
qed

theorem worker_ledger_entry_witness:
  "logs (snd (collect_words_from_file (quiet_worker\<lparr>now := ''2026-01-01T00:00:01''\<rparr>) logged_store
                ''b.txt'' (Some ''listman.log'') (Some ''ADD''))) ''listman.log''
     = Some (''2025-12-31T23:59:59 | CREATE | a.txt | 2 words'' @ [LF]
             @ ''2026-01-01T00:00:01 | ADD    | b.txt | 2 words'' @ [LF])
   \<and> logs (snd (collect_words_from_file (quiet_worker\<lparr>sigint_at := Some 2\<rparr>) logged_store
                   ''b.txt'' (Some ''listman.log'') (Some ''ADD''))) = logs logged_store"
proof -
  have h2: "''listman.log'' \<noteq> []" and h4: "''ADD'' \<noteq> []" by simp_all
  have u: "\<not> unreadable (quiet_worker\<lparr>now := ''2026-01-01T00:00:01''\<rparr>) logged_store ''b.txt''"
    by code_simp
  have x: "\<not> should_exit (sigint_at (quiet_worker\<lparr>now := ''2026-01-01T00:00:01''\<rparr>))
               (length (source_lines logged_store ''b.txt''))"
    by code_simp
  have y: "should_exit (sigint_at (quiet_worker\<lparr>sigint_at := Some 2\<rparr>))
               (length (source_lines logged_store ''b.txt''))"
    by code_simp
  have v: "(case logs logged_store ''listman.log'' of None \<Rightarrow> [] | Some t \<Rightarrow> t)
            @ log_line ''2026-01-01T00:00:01'' ''ADD'' ''b.txt''
                (card (source_words logged_store ''b.txt''))
           = ''2025-12-31T23:59:59 | CREATE | a.txt | 2 words'' @ [LF]
             @ ''2026-01-01T00:00:01 | ADD    | b.txt | 2 words'' @ [LF]"
    by code_simp
  from worker_ledger_entry[OF refl h2 refl h4, of "quiet_worker\<lparr>now := ''2026-01-01T00:00:01''\<rparr>" logged_store "''b.txt''"]
    worker_ledger_entry[OF refl h2 refl h4, of "quiet_worker\<lparr>sigint_at := Some 2\<rparr>" logged_store "''b.txt''"]
    u x y
  show ?thesis by (simp add: v)
qed

subsection \<open>C6: skipping logged sources\<close>




subsection \<open>C7: the order of the saved master\<close>

text \<open>
  C7. For every finite set of words and every \<open>compress\<close>, the file written is the
  concatenation of lines \<open>w\<close>\<^verbatim>\<open>\n\<close> for \<open>w\<close> running through a strictly ascending,
  duplicate-free list of exactly the words; and when no word holds a line feed or a carriage
  return (as every word made from a line of input does), these are the lines read back from
  the file.
\<close>

theorem save_master_sorted:
  assumes "finite words"
  shows "\<exists>ls. saved_file (save_master st words compress) compress
                = Some (concat (map (\<lambda>w. w @ [LF]) ls))
           \<and> set ls = words \<and> sorted_wrt (<) ls \<and> distinct ls
           \<and> ((\<forall>w\<in>words. LF \<notin> set w \<and> CR \<notin> set w)
                \<longrightarrow> map chomp (py_lines (concat (map (\<lambda>w. w @ [LF]) ls))) = ls)"
proof -
  have "(\<forall>w\<in>words. LF \<notin> set w \<and> CR \<notin> set w)
          \<longrightarrow> map chomp (py_lines (write_words words)) = sorted_list_of_set words"
    using assms saved_lines by blast
  then show ?thesis
    using assms
    by (intro exI[of _ "sorted_list_of_set words"])
      (simp add: saved_file_save_master write_words_def)
qed

theorem save_master_sorted_witness:
  "saved_file (save_master example_store {''foo'', ''bar'', ''baz''} (Some ''bz2'')) (Some ''bz2'')
     = Some (''bar'' @ [LF] @ ''baz'' @ [LF] @ ''foo'' @ [LF])
   \<and> (\<exists>ls. saved_file (save_master example_store {''foo'', ''bar'', ''baz''} (Some ''bz2''))
                (Some ''bz2'') = Some (concat (map (\<lambda>w. w @ [LF]) ls))
           \<and> set ls = {''foo'', ''bar'', ''baz''} \<and> sorted_wrt (<) ls \<and> distinct ls
           \<and> map chomp (py_lines (concat (map (\<lambda>w. w @ [LF]) ls))) = ls)"
proof -
  have h: "finite {''foo'', ''bar'', ''baz''}" by simp
  have p: "\<forall>w\<in>{''foo'', ''bar'', ''baz''}. LF \<notin> set w \<and> CR \<notin> set w" by code_simp
  have e: "saved_file (save_master example_store {''foo'', ''bar'', ''baz''} (Some ''bz2'')) (Some ''bz2'')
     = Some (''bar'' @ [LF] @ ''baz'' @ [LF] @ ''foo'' @ [LF])"
    by code_simp
  from save_master_sorted[OF h, of example_store "Some ''bz2''"] p e
  show ?thesis by blast
qed

subsection \<open>C8: sources that cannot be read\<close>

text \<open>
  C8 fails as stated for a failure of the second pass: \<^verbatim>\<open>words\<close> then holds the words of
  the lines read so far, and line 146 returns it after the error is reported.
\<close>

theorem partial_read_counterexample:
  "fst (collect_words_from_file (quiet_worker\<lparr>second_pass := ReadFails 1\<rparr>) example_store
          ''b.txt'' None None) = {''baz''}
   \<and> fst (collect_words_from_file (quiet_worker\<lparr>second_pass := ReadFails 1\<rparr>) example_store
            ''b.txt'' None None) \<noteq> {}
   \<and> console (snd (collect_words_from_file (quiet_worker\<lparr>second_pass := ReadFails 1\<rparr>)
                      example_store ''b.txt'' None None)) = [ErrorReading ''b.txt'']"
  by code_simp

text \<open>
  C8, amended. An uninterrupted ingestion with at least one thread returns whatever sources
  fail, every source that cannot be read to its end is reported, and the result is the union
  of the contributions: nothing from a source whose open or counting pass fails or whose
  second open fails, the words of the lines read before the failure from a source whose
  second pass fails, all its words from a readable source.
\<close>

theorem unreadable_source_contribution:
  assumes "0 < threads" and "\<not> interrupted env (length all_files)"
  shows "fst (ingest env st all_files threads log_path action)
           = Returned (\<Union>j<length all_files. contribution (worker env j) st (all_files ! j))
         \<and> (\<forall>j<length all_files. unreadable (worker env j) st (all_files ! j)
               \<longrightarrow> ErrorReading (all_files ! j)
                     \<in> set (console (snd (ingest env st all_files threads log_path action))))"
  using ingest_uninterrupted(1,2)[OF assms, of st log_path action]
  by auto

theorem unreadable_source_contribution_witness:
  "unreadable (worker second_read_fails 1) example_store ''b.txt''
   \<and> fst (ingest second_read_fails example_store [''a.txt'', ''b.txt'', ''missing.txt''] 2 None None)
       = Returned {''bar'', ''baz'', ''foo''}
   \<and> ErrorReading ''b.txt''
       \<in> set (console (snd (ingest second_read_fails example_store
                                [''a.txt'', ''b.txt'', ''missing.txt''] 2 None None)))"
proof -
  have h1: "0 < (2::nat)" by simp
  have h2: "\<not> interrupted second_read_fails (length [''a.txt'', ''b.txt'', ''missing.txt''])"
    by code_simp
  have u: "unreadable (worker second_read_fails 1) example_store ''b.txt''"
    by code_simp
  have c: "(\<Union>j<length [''a.txt'', ''b.txt'', ''missing.txt''].
              contribution (worker second_read_fails j) example_store
                ([''a.txt'', ''b.txt'', ''missing.txt''] ! j)) = {''bar'', ''baz'', ''foo''}"
    by code_simp
  from unreadable_source_contribution[OF h1 h2, of example_store None None] u
  show ?thesis unfolding c by force
qed

subsection \<open>C9: duplicates in the enumeration\<close>




subsection \<open>C10: interruption without a log\<close>

text \<open>
  C10. When no log path is configured (\<^verbatim>\<open>None\<close>, or the empty string) and the run is
  interrupted, the checkpoint is the whole dispatch sequence, sources that were read
  completely included.
\<close>

theorem interruption_without_log:
  assumes "0 < threads"
    and "fst (enumerate_sources st files folders) \<noteq> []"
    and "interrupted env (length (dispatch_sequence st files folders log_path skip_logged resume))"
    and "\<not> truthy log_path"
  shows "fst (collect_words_from_inputs env st files folders threads log_path action skip_logged resume)
           = Exited
         \<and> resume_file (snd (collect_words_from_inputs env st files folders threads log_path action
                               skip_logged resume))
           = Some (dispatch_sequence st files folders log_path skip_logged resume)"
  using ingest_interrupted[OF assms(1,3), of "snd (enumerate_sources st files folders)" log_path action]
    assms(2) load_logged_files_disabled[OF assms(4)]
  by (auto simp: collect_words_from_inputs_dispatch)

text \<open>The first of three sources is read completely before the signal; all three are pending.\<close>

theorem interruption_without_log_witness:
  "fst (collect_words_from_inputs sigint_after_first example_store [''a.txt'', ''b.txt'', ''c.txt''] []
          2 None (Some ''CREATE'') False False) = Exited
   \<and> resume_file
        (snd (collect_words_from_inputs sigint_after_first example_store
                [''a.txt'', ''b.txt'', ''c.txt''] [] 2 None (Some ''CREATE'') False False))
       = Some [''a.txt'', ''b.txt'', ''c.txt'']"
proof -
  have d: "dispatch_sequence example_store [''a.txt'', ''b.txt'', ''c.txt''] []
             None False False = [''a.txt'', ''b.txt'', ''c.txt'']"
    by code_simp
  have h1: "0 < (2::nat)" by simp
  have h2: "fst (enumerate_sources example_store [''a.txt'', ''b.txt'', ''c.txt''] []) \<noteq> []"
    by code_simp
  have h3: "interrupted sigint_after_first
              (length (dispatch_sequence example_store [''a.txt'', ''b.txt'', ''c.txt''] []
                         None False False))"
    unfolding d by code_simp
  have h4: "\<not> truthy None" by (simp add: truthy_def)
  from interruption_without_log[OF h1 h2 h3 h4, where action = "Some ''CREATE''"]
  show ?thesis by (simp add: d)
qed

end
